theory Spec2Isabelle
  imports Main "HOL-Library.Word" "HOL-Library.Sublist"
begin

section \<open>The task list of \<^verbatim>\<open>src/app/index.tsx\<close>\<close>

text \<open>
  The component \<^verbatim>\<open>App\<close> keeps five pieces of state that matter here (\<^verbatim>\<open>useState\<close>, lines
  39 to 45): the form text \<^verbatim>\<open>task\<close>, the form \<^verbatim>\<open>priority\<close> and \<^verbatim>\<open>category\<close>, the array
  \<^verbatim>\<open>tasks\<close> and \<^verbatim>\<open>editingIndex\<close>. Each handler reads the values of the current render and
  calls the setters with plain values, so one call of a handler is a function from the
  state to the next state. \<^verbatim>\<open>isDarkMode\<close> is read and written by no handler below and is
  left out.
\<close>

subsection \<open>Strings\<close>

text \<open>
  A JavaScript string is a sequence of UTF-16 code units. \<^verbatim>\<open>String.prototype.trim\<close> strips
  the code points of WhiteSpace and LineTerminator (ECMA-262) from both ends; all of them
  are single code units.
\<close>

type_synonym js_string = "16 word list"

definition js_str :: "string \<Rightarrow> js_string" where
  "js_str s = map (\<lambda>c. word_of_nat (of_char c)) s"

definition is_ws :: "16 word \<Rightarrow> bool" where
  "is_ws c \<longleftrightarrow> c \<in> set [0x0009, 0x000A, 0x000B, 0x000C, 0x000D, 0x0020, 0x00A0, 0x1680,
       0x2000, 0x2001, 0x2002, 0x2003, 0x2004, 0x2005, 0x2006, 0x2007, 0x2008, 0x2009,
       0x200A, 0x2028, 0x2029, 0x202F, 0x205F, 0x3000, 0xFEFF]"

definition trim :: "js_string \<Rightarrow> js_string" where
  "trim s = rev (dropWhile is_ws (rev (dropWhile is_ws s)))"

text \<open>\<^verbatim>\<open>if (s)\<close> on a string: the empty string is the only falsy one.\<close>

definition truthy_str :: "js_string \<Rightarrow> bool" where
  "truthy_str s \<longleftrightarrow> s \<noteq> []"

text \<open>
  \<^verbatim>\<open>Date.now().toString()\<close>: the clock reading is an integer number of milliseconds, far
  below \<open>10\<^sup>2\<^sup>1\<close> in absolute value, so the string is its plain decimal form.
\<close>

fun dec :: "nat \<Rightarrow> js_string" where
  "dec n = (if n < 10 then [word_of_nat (48 + n)]
            else dec (n div 10) @ [word_of_nat (48 + n mod 10)])"

definition toString :: "int \<Rightarrow> js_string" where
  "toString n = (if n < 0 then 0x2D # dec (nat (- n)) else dec (nat n))"

subsection \<open>Task objects and arrays\<close>

text \<open>
  The declared element type of \<^verbatim>\<open>tasks\<close> has five fields. The object that line 65 builds
  from a missing element, \<^verbatim>\<open>{ ...undefined, task, priority, category }\<close>, has neither
  \<^verbatim>\<open>completed\<close> nor \<^verbatim>\<open>id\<close>, so these two are optional in the model: \<open>None\<close> is an absent
  property, which reads as \<^verbatim>\<open>undefined\<close>.
\<close>

record task_item =
  item_task :: js_string
  item_priority :: js_string
  item_category :: js_string
  item_completed :: "bool option"
  item_id :: "js_string option"

text \<open>
  An array position holds an object, the value \<^verbatim>\<open>undefined\<close>, or nothing at all (a hole,
  left behind when an assignment beyond the end extends the array). Reading a hole gives
  \<^verbatim>\<open>undefined\<close>; the difference shows in \<^verbatim>\<open>Array.prototype.filter\<close>, which skips holes.
\<close>

datatype slot = Hole | Undefined | Obj task_item

datatype error = TypeError

text \<open>\<^verbatim>\<open>[...xs]\<close>: the iterator reads every index, so holes become \<^verbatim>\<open>undefined\<close>.\<close>

definition spread :: "slot list \<Rightarrow> slot list" where
  "spread xs = map (\<lambda>x. case x of Hole \<Rightarrow> Undefined | _ \<Rightarrow> x) xs"

text \<open>\<^verbatim>\<open>xs[i]\<close> for an integer \<open>i\<close>: \<^verbatim>\<open>undefined\<close> out of range and on a hole.\<close>

definition js_get :: "slot list \<Rightarrow> int \<Rightarrow> slot" where
  "js_get xs i =
     (if 0 \<le> i \<and> i < int (length xs)
      then (case xs ! nat i of Hole \<Rightarrow> Undefined | x \<Rightarrow> x)
      else Undefined)"

text \<open>
  \<^verbatim>\<open>xs[k] = v\<close> for an array index \<open>k\<close>: in range it overwrites; beyond the end the array
  grows to length \<open>k + 1\<close>, with holes between the old end and \<open>k\<close>.
\<close>

definition js_set :: "slot list \<Rightarrow> nat \<Rightarrow> slot \<Rightarrow> slot list" where
  "js_set xs k v =
     (if k < length xs then xs[k := v]
      else xs @ replicate (k - length xs) Hole @ [v])"

text \<open>
  \<^verbatim>\<open>xs.filter((x, i) => p(x, i))\<close>: the callback runs on the positions that exist, with
  their index in \<open>xs\<close>; holes are skipped and never reach the result.
\<close>

definition js_filter :: "(slot \<Rightarrow> nat \<Rightarrow> bool) \<Rightarrow> slot list \<Rightarrow> slot list" where
  "js_filter p xs = map snd (filter (\<lambda>(i, x). x \<noteq> Hole \<and> p x i) (enumerate 0 xs))"

text \<open>
  \<^verbatim>\<open>{ ...x, task, priority, category }\<close>: the own properties of \<open>x\<close> (none when \<open>x\<close> is
  \<^verbatim>\<open>undefined\<close>), then the three named ones.
\<close>

definition overwrite :: "slot \<Rightarrow> js_string \<Rightarrow> js_string \<Rightarrow> js_string \<Rightarrow> task_item" where
  "overwrite x t p c =
     (case x of
        Obj ob \<Rightarrow> ob\<lparr>item_task := t, item_priority := p, item_category := c\<rparr>
      | _ \<Rightarrow> \<lparr>item_task = t, item_priority = p, item_category = c,
              item_completed = None, item_id = None\<rparr>)"

text \<open>\<^verbatim>\<open>!x\<close> on the \<^verbatim>\<open>completed\<close> property: an absent property is falsy.\<close>

definition js_not :: "bool option \<Rightarrow> bool" where
  "js_not c = (case c of None \<Rightarrow> True | Some b \<Rightarrow> \<not> b)"

subsection \<open>The state and its handlers\<close>

text \<open>
  \<open>editingIndex\<close> is \<^verbatim>\<open>number | null\<close> in the source. Its only non-null writer is
  \<^verbatim>\<open>editTask\<close>, which throws before the write unless \<^verbatim>\<open>tasks[index]\<close> is an object, so a
  stored index is always a natural number.
\<close>

record app_state =
  task :: js_string
  priority :: js_string
  category :: js_string
  tasks :: "slot list"
  editingIndex :: "nat option"

definition init :: app_state where
  "init = \<lparr>task = [], priority = js_str ''Medium'', category = js_str ''Work'',
           tasks = [], editingIndex = None\<rparr>"

text \<open>\<open>addTask\<close> (lines 61 to 78); \<open>now\<close> is the value that \<^verbatim>\<open>Date.now()\<close> returns.\<close>

definition addTask :: "int \<Rightarrow> app_state \<Rightarrow> app_state" where
  "addTask now s =
     (if truthy_str (trim (task s)) then
        (case editingIndex s of
           Some k \<Rightarrow>
             (let updatedTasks = spread (tasks s);
                  updatedTasks = js_set updatedTasks k
                     (Obj (overwrite (js_get updatedTasks (int k))
                             (task s) (priority s) (category s)))
              in s\<lparr>tasks := updatedTasks, editingIndex := None\<rparr>)
         | None \<Rightarrow>
             s\<lparr>tasks := spread (tasks s) @
                  [Obj \<lparr>item_task = task s, item_priority = priority s,
                        item_category = category s, item_completed = Some False,
                        item_id = Some (toString now)\<rparr>]\<rparr>)
        \<lparr>task := [], priority := js_str ''Medium'', category := js_str ''Work''\<rparr>
      else s)"

text \<open>
  \<open>deleteTask\<close> (lines 80 to 83). The index is the integer that the row passes; the
  comparison \<^verbatim>\<open>i !== index\<close> is between numbers.
\<close>

definition deleteTask :: "int \<Rightarrow> app_state \<Rightarrow> app_state" where
  "deleteTask index s =
     (let updatedTasks = js_filter (\<lambda>_ i. int i \<noteq> index) (tasks s)
      in s\<lparr>tasks := updatedTasks\<rparr>)"

text \<open>
  \<open>toggleTaskCompletion\<close> (lines 85 to 89). Reading \<^verbatim>\<open>.completed\<close> of \<^verbatim>\<open>undefined\<close> throws,
  before any setter is called. The assignment writes into the object that the old array
  holds too; the old array is not read again, so the model returns the new one only.
\<close>

definition toggleTaskCompletion :: "int \<Rightarrow> app_state \<Rightarrow> error + app_state" where
  "toggleTaskCompletion index s =
     (let updatedTasks = spread (tasks s)
      in case js_get updatedTasks index of
           Obj ob \<Rightarrow>
             Inr (s\<lparr>tasks := updatedTasks[nat index :=
                      Obj (ob\<lparr>item_completed := Some (js_not (item_completed ob))\<rparr>)]\<rparr>)
         | _ \<Rightarrow> Inl TypeError)"

text \<open>\<open>editTask\<close> (lines 107 to 112). \<^verbatim>\<open>tasks[index].task\<close> throws on \<^verbatim>\<open>undefined\<close>.\<close>

definition editTask :: "int \<Rightarrow> app_state \<Rightarrow> error + app_state" where
  "editTask index s =
     (case js_get (tasks s) index of
        Obj ob \<Rightarrow>
          Inr (s\<lparr>task := item_task ob, priority := item_priority ob,
                 category := item_category ob, editingIndex := Some (nat index)\<rparr>)
      | _ \<Rightarrow> Inl TypeError)"

subsection \<open>User events and runs\<close>

text \<open>
  What the screen can do to the state: typing into the text input (line 136), choosing in
  the two pickers (lines 142 and 153), pressing the add/update button (line 162, with the
  clock reading that its \<^verbatim>\<open>Date.now()\<close> sees), and the checkbox, Edit and Delete controls of
  a row (lines 172, 186, 189) with the row's index.
\<close>

datatype event =
    ChangeText js_string
  | ChangePriority js_string
  | ChangeCategory js_string
  | PressAdd int
  | PressToggle int
  | PressEdit int
  | PressDelete int

fun step :: "event \<Rightarrow> app_state \<Rightarrow> error + app_state" where
  "step (ChangeText t) s = Inr (s\<lparr>task := t\<rparr>)"
| "step (ChangePriority p) s = Inr (s\<lparr>priority := p\<rparr>)"
| "step (ChangeCategory c) s = Inr (s\<lparr>category := c\<rparr>)"
| "step (PressAdd now) s = Inr (addTask now s)"
| "step (PressToggle i) s = toggleTaskCompletion i s"
| "step (PressEdit i) s = editTask i s"
| "step (PressDelete i) s = Inr (deleteTask i s)"

text \<open>A run ends at the first handler that throws.\<close>

fun run :: "event list \<Rightarrow> app_state \<Rightarrow> error + app_state" where
  "run [] s = Inr s"
| "run (e # es) s = (case step e s of Inl err \<Rightarrow> Inl err | Inr s' \<Rightarrow> run es s')"

text \<open>The clock readings of the presses of the add/update button, in order.\<close>

fun clocks :: "event list \<Rightarrow> int list" where
  "clocks [] = []"
| "clocks (PressAdd now # es) = now # clocks es"
| "clocks (e # es) = clocks es"

subsection \<open>Ids\<close>

text \<open>The id that a position carries, if it holds an object that has one.\<close>

fun slot_id :: "slot \<Rightarrow> js_string option" where
  "slot_id (Obj ob) = item_id ob"
| "slot_id Hole = None"
| "slot_id Undefined = None"

definition ids :: "slot list \<Rightarrow> js_string list" where
  "ids xs = List.map_filter slot_id xs"

definition has_id :: "slot \<Rightarrow> bool" where
  "has_id x \<longleftrightarrow> slot_id x \<noteq> None"

text \<open>
  A press of the add/update button is a stale update when it runs line 65 with a stored
  index at or beyond the end of the array: a row was deleted while another was being
  edited. \<open>in_range_updates\<close> says that no press of a run is one.
\<close>

definition stale_update :: "app_state \<Rightarrow> bool" where
  "stale_update s \<longleftrightarrow>
     truthy_str (trim (task s)) \<and>
     (case editingIndex s of None \<Rightarrow> False | Some k \<Rightarrow> length (tasks s) \<le> k)"

fun in_range_updates :: "event list \<Rightarrow> app_state \<Rightarrow> bool" where
  "in_range_updates [] s = True"
| "in_range_updates (e # es) s =
     ((case e of PressAdd now \<Rightarrow> \<not> stale_update s | _ \<Rightarrow> True) \<and>
      (case step e s of Inl err \<Rightarrow> True | Inr s' \<Rightarrow> in_range_updates es s'))"

text \<open>Reading a decimal string back, used to show that \<open>toString\<close> is injective.\<close>

definition undec :: "js_string \<Rightarrow> nat" where
  "undec ds = foldl (\<lambda>a d. 10 * a + (unat d - 48)) 0 ds"

subsection \<open>Example data\<close>

definition milk :: task_item where
  "milk = \<lparr>item_task = js_str ''milk'', item_priority = js_str ''High'',
            item_category = js_str ''Shopping'', item_completed = Some False,
            item_id = Some (js_str ''1000'')\<rparr>"

definition report :: task_item where
  "report = \<lparr>item_task = js_str ''report'', item_priority = js_str ''Low'',
              item_category = js_str ''Work'', item_completed = Some True,
              item_id = Some (js_str ''2000'')\<rparr>"

definition call :: task_item where
  "call = \<lparr>item_task = js_str ''call'', item_priority = js_str ''Medium'',
            item_category = js_str ''Personal'', item_completed = Some False,
            item_id = Some (js_str ''3000'')\<rparr>"

text \<open>Three tasks in the list, \<^verbatim>\<open>"gym"\<close> typed into the form, nothing being edited.\<close>

definition typing :: app_state where
  "typing = \<lparr>task = js_str ''gym'', priority = js_str ''Low'',
              category = js_str ''Personal'', tasks = [Obj milk, Obj report, Obj call],
              editingIndex = None\<rparr>"

text \<open>The same list while its second task is being edited.\<close>

definition editing :: app_state where
  "editing = typing\<lparr>editingIndex := Some 1\<rparr>"

text \<open>A form that holds only a space and a tab.\<close>

definition blank :: app_state where
  "blank = editing\<lparr>task := [0x20, 0x09]\<rparr>"

text \<open>Two tasks typed and added while the clock reads 5 both times.\<close>

definition same_clock :: "event list" where
  "same_clock = [ChangeText (js_str ''a''), PressAdd 5, ChangeText (js_str ''b''), PressAdd 5]"

definition twins :: app_state where
  "twins = init\<lparr>tasks :=
     [Obj \<lparr>item_task = js_str ''a'', item_priority = js_str ''Medium'',
           item_category = js_str ''Work'', item_completed = Some False,
           item_id = Some (js_str ''5'')\<rparr>,
      Obj \<lparr>item_task = js_str ''b'', item_priority = js_str ''Medium'',
           item_category = js_str ''Work'', item_completed = Some False,
           item_id = Some (js_str ''5'')\<rparr>]\<rparr>"

text \<open>The same two tasks added while the clock reads 5 and then 6.\<close>

definition later_clock :: "event list" where
  "later_clock = [ChangeText (js_str ''a''), PressAdd 5, ChangeText (js_str ''b''), PressAdd 6]"

definition pair :: app_state where
  "pair = init\<lparr>tasks :=
     [Obj \<lparr>item_task = js_str ''a'', item_priority = js_str ''Medium'',
           item_category = js_str ''Work'', item_completed = Some False,
           item_id = Some (js_str ''5'')\<rparr>,
      Obj \<lparr>item_task = js_str ''b'', item_priority = js_str ''Medium'',
           item_category = js_str ''Work'', item_completed = Some False,
           item_id = Some (js_str ''6'')\<rparr>]\<rparr>"

text \<open>After the two additions, the first row is edited and renamed.\<close>

definition renaming :: "event list" where
  "renaming = later_clock @ [PressEdit 0, ChangeText (js_str ''c''), PressAdd 7]"

definition renamed :: app_state where
  "renamed = init\<lparr>tasks :=
     [Obj \<lparr>item_task = js_str ''c'', item_priority = js_str ''Medium'',
           item_category = js_str ''Work'', item_completed = Some False,
           item_id = Some (js_str ''5'')\<rparr>,
      Obj \<lparr>item_task = js_str ''b'', item_priority = js_str ''Medium'',
           item_category = js_str ''Work'', item_completed = Some False,
           item_id = Some (js_str ''6'')\<rparr>]\<rparr>"

text \<open>
  Two additions; then, twice: Edit on the second row, Delete on the first row, Update.
\<close>

definition stale_run :: "event list" where
  "stale_run =
     [ChangeText (js_str ''a''), PressAdd 1, ChangeText (js_str ''b''), PressAdd 2,
      PressEdit 1, PressDelete 0, PressAdd 3, PressEdit 1, PressDelete 0, PressAdd 4]"

section \<open>Properties\<close>

declare dec.simps [simp del]

subsection \<open>Strings and arrays\<close>

lemma all_dropWhile: "(\<forall>x\<in>set (dropWhile P s). P x) \<longleftrightarrow> (\<forall>x\<in>set s. P x)"
  by (induction s) auto

lemma trim_empty_iff: "trim s = [] \<longleftrightarrow> (\<forall>c\<in>set s. is_ws c)"
  by (simp add: trim_def all_dropWhile)

lemma spread_dense: "Hole \<notin> set xs \<Longrightarrow> spread xs = xs"
  by (induction xs) (auto simp: spread_def split: slot.splits)

lemma length_spread [simp]: "length (spread xs) = length xs"
  by (simp add: spread_def)

lemma spread_nth_Obj: "j < length xs \<Longrightarrow> xs ! j = Obj t \<Longrightarrow> spread xs ! j = Obj t"
  by (simp add: spread_def)

lemma js_get_spread_Obj:
  "k < length xs \<Longrightarrow> xs ! k = Obj t \<Longrightarrow> js_get (spread xs) (int k) = Obj t"
  by (simp add: js_get_def spread_nth_Obj)

lemma spread_spread [simp]: "spread (spread xs) = spread xs"
  by (induction xs) (auto simp: spread_def split: slot.splits)

lemma spread_update_Obj: "spread (xs[k := Obj t]) = (spread xs)[k := Obj t]"
  by (simp add: spread_def map_update)

text \<open>
  Filtering by index on an array without holes: a predicate that holds on every index of
  the array keeps it whole, and excluding one index inside it cuts that element out.
\<close>

lemma filter_enumerate_all:
  "Hole \<notin> set xs \<Longrightarrow> \<forall>j. n \<le> j \<and> j < n + length xs \<longrightarrow> p j \<Longrightarrow>
   map snd (filter (\<lambda>(j, x). x \<noteq> Hole \<and> p j) (enumerate n xs)) = xs"
proof (induction xs arbitrary: n)
  case Nil
  then show ?case by simp
next
  case (Cons x xs)
  have "\<forall>j. Suc n \<le> j \<and> j < Suc n + length xs \<longrightarrow> p j"
    using Cons.prems(2) by simp
  moreover have "p n"
    using Cons.prems(2) by simp
  ultimately show ?case
    using Cons.IH [of "Suc n"] Cons.prems(1) by auto
qed

lemma filter_enumerate_one:
  "Hole \<notin> set xs \<Longrightarrow> k < length xs \<Longrightarrow>
   map snd (filter (\<lambda>(j, x). x \<noteq> Hole \<and> j \<noteq> n + k) (enumerate n xs)) =
     take k xs @ drop (Suc k) xs"
proof (induction xs arbitrary: n k)
  case Nil
  then show ?case by simp
next
  case (Cons x xs)
  show ?case
  proof (cases k)
    case 0
    have "map snd (filter (\<lambda>(j, x). x \<noteq> Hole \<and> j \<noteq> n) (enumerate (Suc n) xs)) = xs"
      using Cons.prems(1) by (intro filter_enumerate_all) auto
    then show ?thesis
      using 0 by simp
  next
    case (Suc m)
    then have "map snd (filter (\<lambda>(j, x). x \<noteq> Hole \<and> j \<noteq> Suc n + m) (enumerate (Suc n) xs)) =
       take m xs @ drop (Suc m) xs"
      using Cons.prems by (intro Cons.IH) auto
    then show ?thesis
      using Suc Cons.prems(1) by auto
  qed
qed

lemma js_filter_out_of_range:
  assumes "Hole \<notin> set xs" and "i < 0 \<or> int (length xs) \<le> i"
  shows "js_filter (\<lambda>_ j. int j \<noteq> i) xs = xs"
  unfolding js_filter_def using assms by (intro filter_enumerate_all) auto

lemma js_filter_in_range:
  assumes "Hole \<notin> set xs" and "0 \<le> i" and "i < int (length xs)"
  shows "js_filter (\<lambda>_ j. int j \<noteq> i) xs = take (nat i) xs @ drop (Suc (nat i)) xs"
proof -
  have "(\<lambda>(j::nat, x). x \<noteq> Hole \<and> int j \<noteq> i) = (\<lambda>(j, x). x \<noteq> Hole \<and> j \<noteq> 0 + nat i)"
    using assms(2) by (auto simp: fun_eq_iff)
  moreover have "nat i < length xs"
    using assms by simp
  ultimately show ?thesis
    unfolding js_filter_def using filter_enumerate_one [OF assms(1), of "nat i" 0] by simp
qed

lemmas ex_defs = typing_def editing_def blank_def milk_def report_def call_def js_str_def

subsection \<open>Adding and updating\<close>

lemma addTask_None:
  "editingIndex s = None \<Longrightarrow> trim (task s) \<noteq> [] \<Longrightarrow>
   tasks (addTask now s) = spread (tasks s) @
      [Obj \<lparr>item_task = task s, item_priority = priority s,
            item_category = category s, item_completed = Some False,
            item_id = Some (toString now)\<rparr>]"
  by (simp add: addTask_def truthy_str_def)

lemma addTask_Some:
  "editingIndex s = Some k \<Longrightarrow> trim (task s) \<noteq> [] \<Longrightarrow>
   tasks (addTask now s) =
     js_set (spread (tasks s)) k
       (Obj (overwrite (js_get (spread (tasks s)) (int k)) (task s) (priority s) (category s)))"
  by (simp add: addTask_def truthy_str_def Let_def)

lemma addTask_empty: "trim (task s) = [] \<Longrightarrow> addTask now s = s"
  by (simp add: addTask_def truthy_str_def)

text \<open>
  C1. With no task being edited and a form text that is not empty after trimming,
  \<open>addTask\<close> puts exactly one new object behind the old array: its text, priority and
  category are the form's, \<open>completed\<close> is false and the id is the clock reading. The
  array is one longer, every task that was there is still at its index, unchanged, and
  an array without holes is the prefix of the new one as it stands.
\<close>

theorem addTask_appends:
  assumes "editingIndex s = None" and "trim (task s) \<noteq> []"
  shows "tasks (addTask now s) = spread (tasks s) @
           [Obj \<lparr>item_task = task s, item_priority = priority s,
                 item_category = category s, item_completed = Some False,
                 item_id = Some (toString now)\<rparr>]
       \<and> length (tasks (addTask now s)) = Suc (length (tasks s))
       \<and> (\<forall>j<length (tasks s). \<forall>t. tasks s ! j = Obj t \<longrightarrow> tasks (addTask now s) ! j = Obj t)
       \<and> (Hole \<notin> set (tasks s) \<longrightarrow> take (length (tasks s)) (tasks (addTask now s)) = tasks s)"
proof -
  note eq = addTask_None [OF assms, of now]
  have "length (tasks (addTask now s)) = Suc (length (tasks s))"
    by (simp add: eq)
  moreover have "\<forall>j<length (tasks s). \<forall>t. tasks s ! j = Obj t \<longrightarrow> tasks (addTask now s) ! j = Obj t"
    by (simp add: eq nth_append spread_nth_Obj)
  moreover have "Hole \<notin> set (tasks s) \<longrightarrow> take (length (tasks s)) (tasks (addTask now s)) = tasks s"
    by (simp add: eq spread_dense)
  ultimately show ?thesis using eq by simp
qed

theorem addTask_appends_witness:
  "editingIndex typing = None \<and> trim (task typing) \<noteq> [] \<and> Hole \<notin> set (tasks typing)
   \<and> tasks (addTask 7 typing) =
       [Obj milk, Obj report, Obj call,
        Obj \<lparr>item_task = js_str ''gym'', item_priority = js_str ''Low'',
              item_category = js_str ''Personal'', item_completed = Some False,
              item_id = Some (js_str ''7'')\<rparr>]
   \<and> length (tasks (addTask 7 typing)) = 4
   \<and> tasks (addTask 7 typing) ! 1 = Obj report
   \<and> take 3 (tasks (addTask 7 typing)) = tasks typing"
proof -
  have h1: "editingIndex typing = None"
    by (simp add: typing_def)
  have h2: "trim (task typing) \<noteq> []"
    by (simp add: ex_defs trim_def is_ws_def)
  show ?thesis
    using h1 h2 addTask_appends [OF h1 h2, of 7]
    by (simp add: ex_defs spread_def toString_def dec.simps)
qed

text \<open>
  C2. When the form text is empty or holds only whitespace, \<open>addTask\<close> returns the state
  it was given, whether or not a task is being edited. It has no error result at all: the
  handler returns normally.
\<close>

theorem addTask_blank:
  "\<forall>c\<in>set (task s). is_ws c \<Longrightarrow> addTask now s = s"
  by (simp add: addTask_empty trim_empty_iff)

theorem addTask_blank_witness:
  "task blank = [0x20, 0x09] \<and> is_ws 0x20 \<and> is_ws 0x09 \<and> editingIndex blank = Some 1
   \<and> addTask 7 blank = blank"
proof -
  have h: "\<forall>c\<in>set (task blank). is_ws c"
    by (simp add: ex_defs is_ws_def)
  show ?thesis
    using addTask_blank [OF h, of 7] by (simp add: ex_defs is_ws_def)
qed

text \<open>
  C3. In editing mode, with the stored index inside the array and a task at it, and a form
  text that is not empty after trimming, \<open>addTask\<close> writes the form's text, priority and
  category into that task and nothing else: its id and \<open>completed\<close> stay (the record
  update touches three fields), it stays at its index, the length is the same and every
  other task is unchanged.
\<close>

theorem addTask_edits_in_place:
  assumes "editingIndex s = Some k" and "k < length (tasks s)" and "tasks s ! k = Obj t"
    and "trim (task s) \<noteq> []"
  shows "tasks (addTask now s) = (spread (tasks s))
            [k := Obj (t\<lparr>item_task := task s, item_priority := priority s,
                         item_category := category s\<rparr>)]
       \<and> length (tasks (addTask now s)) = length (tasks s)
       \<and> (\<forall>j<length (tasks s). j \<noteq> k \<longrightarrow>
            (\<forall>u. tasks s ! j = Obj u \<longrightarrow> tasks (addTask now s) ! j = Obj u))
       \<and> (Hole \<notin> set (tasks s) \<longrightarrow> tasks (addTask now s) = (tasks s)
            [k := Obj (t\<lparr>item_task := task s, item_priority := priority s,
                         item_category := category s\<rparr>)])"
proof -
  have eq: "tasks (addTask now s) = (spread (tasks s))
            [k := Obj (t\<lparr>item_task := task s, item_priority := priority s,
                         item_category := category s\<rparr>)]"
    using assms by (simp add: addTask_Some js_set_def js_get_spread_Obj overwrite_def)
  then show ?thesis by (auto simp: spread_nth_Obj spread_dense)
qed

theorem addTask_edits_in_place_witness:
  "editingIndex editing = Some 1 \<and> 1 < length (tasks editing) \<and> tasks editing ! 1 = Obj report
   \<and> trim (task editing) \<noteq> [] \<and> Hole \<notin> set (tasks editing)
   \<and> tasks (addTask 7 editing) =
       [Obj milk,
        Obj \<lparr>item_task = js_str ''gym'', item_priority = js_str ''Low'',
              item_category = js_str ''Personal'', item_completed = Some True,
              item_id = Some (js_str ''2000'')\<rparr>,
        Obj call]
   \<and> tasks (addTask 7 editing) ! 0 = Obj milk \<and> tasks (addTask 7 editing) ! 2 = Obj call"
proof -
  have h1: "editingIndex editing = Some 1"
    by (simp add: ex_defs)
  have h2: "1 < length (tasks editing)"
    by (simp add: ex_defs)
  have h3: "tasks editing ! 1 = Obj report"
    by (simp add: editing_def typing_def)
  have h4: "trim (task editing) \<noteq> []"
    by (simp add: ex_defs trim_def is_ws_def)
  show ?thesis
    using h1 h2 h3 h4 addTask_edits_in_place [OF h1 h2 h3 h4, of 7]
    by (simp add: ex_defs spread_def)
qed

text \<open>
  C8. Whenever the form text is not empty after trimming, \<open>addTask\<close> leaves the form text
  empty, the priority \<^verbatim>\<open>"Medium"\<close>, the category \<^verbatim>\<open>"Work"\<close> and no index being edited, in the
  append case and in the editing case alike.
\<close>

theorem addTask_clears_form:
  "trim (task s) \<noteq> [] \<Longrightarrow>
     task (addTask now s) = [] \<and> priority (addTask now s) = js_str ''Medium'' \<and>
     category (addTask now s) = js_str ''Work'' \<and> editingIndex (addTask now s) = None"
  by (simp add: addTask_def truthy_str_def Let_def split: option.splits)

theorem addTask_clears_form_witness:
  "trim (task editing) \<noteq> [] \<and> editingIndex editing = Some 1 \<and>
   task (addTask 7 editing) = [] \<and> priority (addTask 7 editing) = js_str ''Medium'' \<and>
   category (addTask 7 editing) = js_str ''Work'' \<and> editingIndex (addTask 7 editing) = None"
proof -
  have h: "trim (task editing) \<noteq> []"
    by (simp add: ex_defs trim_def is_ws_def)
  show ?thesis
    using h addTask_clears_form [OF h, of 7] by (simp add: ex_defs)
qed

subsection \<open>Deleting\<close>

text \<open>
  C10. \<open>deleteTask\<close> writes \<open>tasks\<close> only: the index being edited and the three form fields
  are what they were, for every index, the edited one included.
\<close>

theorem deleteTask_frame:
  "editingIndex (deleteTask i s) = editingIndex s \<and> task (deleteTask i s) = task s \<and>
   priority (deleteTask i s) = priority s \<and> category (deleteTask i s) = category s"
  by (simp add: deleteTask_def)

text \<open>
  C4. On an array without holes and an index \<open>i\<close> inside it, \<open>deleteTask\<close> cuts out the
  element at \<open>i\<close> and nothing else: the result is one shorter, the elements below \<open>i\<close> keep
  their index and value, and the element that was at \<open>j > i\<close> is now at \<open>j - 1\<close>, unchanged.
\<close>

theorem deleteTask_removes_one:
  assumes "Hole \<notin> set (tasks s)" and "0 \<le> i" and "i < int (length (tasks s))"
  shows "tasks (deleteTask i s) = take (nat i) (tasks s) @ drop (Suc (nat i)) (tasks s)
       \<and> Suc (length (tasks (deleteTask i s))) = length (tasks s)
       \<and> (\<forall>j<nat i. tasks (deleteTask i s) ! j = tasks s ! j)
       \<and> (\<forall>j. nat i < j \<and> j < length (tasks s) \<longrightarrow>
            tasks (deleteTask i s) ! (j - 1) = tasks s ! j)"
proof -
  let ?k = "nat i"
  have k: "?k < length (tasks s)"
    using assms by simp
  have eq: "tasks (deleteTask i s) = take ?k (tasks s) @ drop (Suc ?k) (tasks s)"
    using assms by (simp add: deleteTask_def js_filter_in_range)
  have len: "Suc (length (tasks (deleteTask i s))) = length (tasks s)"
    using k by (simp add: eq)
  have low: "\<forall>j<?k. tasks (deleteTask i s) ! j = tasks s ! j"
    using k by (simp add: eq nth_append)
  have high: "\<forall>j. ?k < j \<and> j < length (tasks s) \<longrightarrow>
                tasks (deleteTask i s) ! (j - 1) = tasks s ! j"
  proof (intro allI impI)
    fix j
    assume j: "?k < j \<and> j < length (tasks s)"
    then have "\<not> j - 1 < ?k" and "Suc ?k + (j - 1 - ?k) = j"
      by auto
    then show "tasks (deleteTask i s) ! (j - 1) = tasks s ! j"
      using j k by (simp add: eq nth_append min_def)
  qed
  show ?thesis
    using eq len low high by blast
qed

theorem deleteTask_removes_one_witness:
  "Hole \<notin> set (tasks typing) \<and> (0::int) \<le> 1 \<and> 1 < int (length (tasks typing))
   \<and> tasks (deleteTask 1 typing) = [Obj milk, Obj call]
   \<and> Suc (length (tasks (deleteTask 1 typing))) = 3
   \<and> tasks (deleteTask 1 typing) ! 0 = tasks typing ! 0
   \<and> tasks (deleteTask 1 typing) ! (2 - 1) = tasks typing ! 2"
proof -
  have h1: "Hole \<notin> set (tasks typing)"
    by (simp add: typing_def)
  have h2: "(0::int) \<le> 1"
    by simp
  have h3: "1 < int (length (tasks typing))"
    by (simp add: typing_def)
  show ?thesis
    using h1 h3 deleteTask_removes_one [OF h1 h2 h3]
    by (simp add: typing_def)
qed

text \<open>
  C9. On an array without holes and an index outside it (negative, or at least the
  length), \<open>deleteTask\<close> returns the state it was given: the filter keeps every element.
\<close>

theorem deleteTask_out_of_range:
  "Hole \<notin> set (tasks s) \<Longrightarrow> i < 0 \<or> int (length (tasks s)) \<le> i \<Longrightarrow> deleteTask i s = s"
  by (simp add: deleteTask_def js_filter_out_of_range)

theorem deleteTask_out_of_range_witness:
  "Hole \<notin> set (tasks typing) \<and> int (length (tasks typing)) \<le> 3 \<and> (-1::int) < 0
   \<and> deleteTask 3 typing = typing \<and> deleteTask (-1) typing = typing"
proof -
  have h1: "Hole \<notin> set (tasks typing)"
    by (simp add: typing_def)
  have h2: "(3::int) < 0 \<or> int (length (tasks typing)) \<le> 3"
    by (simp add: typing_def)
  have h3: "-1 < (0::int) \<or> int (length (tasks typing)) \<le> -1"
    by simp
  show ?thesis
    using h1 h2 deleteTask_out_of_range [OF h1 h2] deleteTask_out_of_range [OF h1 h3]
    by (simp add: typing_def)
qed

subsection \<open>Toggling\<close>

lemma toggle_Obj:
  assumes "0 \<le> i" and "i < int (length (tasks s))" and "tasks s ! nat i = Obj t"
  shows "toggleTaskCompletion i s =
           Inr (s\<lparr>tasks := (spread (tasks s))
                  [nat i := Obj (t\<lparr>item_completed := Some (js_not (item_completed t))\<rparr>)]\<rparr>)"
proof -
  have "js_get (spread (tasks s)) i = Obj t"
    using assms js_get_spread_Obj [of "nat i" "tasks s" t] by simp
  then show ?thesis
    by (simp add: toggleTaskCompletion_def)
qed

text \<open>
  C5. On an index inside the array with a task at it whose \<open>completed\<close> is the boolean \<open>b\<close>,
  one call of \<open>toggleTaskCompletion\<close> succeeds and sets that field to \<open>\<not> b\<close>, touching no
  other field of the task and no other task; a second call on the result succeeds and
  gives back the array copy of the start, in which the task at the index is the
  original task, \<open>completed\<close> included. On an array without holes the copy is the array,
  and the second call returns the very state the first one started from.
\<close>

theorem toggleTaskCompletion_involution:
  assumes "0 \<le> i" and "i < int (length (tasks s))" and "tasks s ! nat i = Obj t"
    and "item_completed t = Some b"
  shows "toggleTaskCompletion i s =
           Inr (s\<lparr>tasks := (spread (tasks s))[nat i := Obj (t\<lparr>item_completed := Some (\<not> b)\<rparr>)]\<rparr>)
       \<and> (\<forall>j<length (tasks s). j \<noteq> nat i \<longrightarrow>
            (\<forall>u. tasks s ! j = Obj u \<longrightarrow>
              (spread (tasks s))[nat i := Obj (t\<lparr>item_completed := Some (\<not> b)\<rparr>)] ! j = Obj u))
       \<and> toggleTaskCompletion i
            (s\<lparr>tasks := (spread (tasks s))[nat i := Obj (t\<lparr>item_completed := Some (\<not> b)\<rparr>)]\<rparr>)
           = Inr (s\<lparr>tasks := spread (tasks s)\<rparr>)
       \<and> spread (tasks s) ! nat i = Obj t
       \<and> (Hole \<notin> set (tasks s) \<longrightarrow>
            toggleTaskCompletion i s =
              Inr (s\<lparr>tasks := (tasks s)[nat i := Obj (t\<lparr>item_completed := Some (\<not> b)\<rparr>)]\<rparr>)
          \<and> toggleTaskCompletion i
              (s\<lparr>tasks := (tasks s)[nat i := Obj (t\<lparr>item_completed := Some (\<not> b)\<rparr>)]\<rparr>)
             = Inr s)"
proof -
  let ?once = "(spread (tasks s))[nat i := Obj (t\<lparr>item_completed := Some (\<not> b)\<rparr>)]"
  have k: "nat i < length (tasks s)"
    using assms by simp
  have one: "toggleTaskCompletion i s = Inr (s\<lparr>tasks := ?once\<rparr>)"
    using toggle_Obj [OF assms(1-3)] assms(4) by (simp add: js_not_def)
  have at: "spread (tasks s) ! nat i = Obj t"
    using k assms(3) by (rule spread_nth_Obj)
  have others: "\<forall>j<length (tasks s). j \<noteq> nat i \<longrightarrow>
                  (\<forall>u. tasks s ! j = Obj u \<longrightarrow> ?once ! j = Obj u)"
    by (simp add: spread_nth_Obj)
  have "toggleTaskCompletion i (s\<lparr>tasks := ?once\<rparr>) =
          Inr (s\<lparr>tasks := (spread ?once)[nat i := Obj (t\<lparr>item_completed := Some b\<rparr>)]\<rparr>)"
    using toggle_Obj [of i "s\<lparr>tasks := ?once\<rparr>" "t\<lparr>item_completed := Some (\<not> b)\<rparr>"] assms(1) k
    by (simp add: js_not_def)
  moreover have "t\<lparr>item_completed := Some b\<rparr> = t"
    using assms(4) by simp
  moreover have "(spread ?once)[nat i := Obj t] = spread (tasks s)"
  proof -
    have "(spread ?once)[nat i := Obj t] = (spread (tasks s))[nat i := spread (tasks s) ! nat i]"
      by (simp add: spread_update_Obj at)
    then show ?thesis
      by (simp only: list_update_id)
  qed
  ultimately have two:
    "toggleTaskCompletion i (s\<lparr>tasks := ?once\<rparr>) = Inr (s\<lparr>tasks := spread (tasks s)\<rparr>)"
    by simp
  have dense: "Hole \<notin> set (tasks s) \<longrightarrow>
      toggleTaskCompletion i s =
        Inr (s\<lparr>tasks := (tasks s)[nat i := Obj (t\<lparr>item_completed := Some (\<not> b)\<rparr>)]\<rparr>)
    \<and> toggleTaskCompletion i
        (s\<lparr>tasks := (tasks s)[nat i := Obj (t\<lparr>item_completed := Some (\<not> b)\<rparr>)]\<rparr>)
       = Inr s"
  proof
    assume "Hole \<notin> set (tasks s)"
    then have "spread (tasks s) = tasks s"
      by (rule spread_dense)
    then show "toggleTaskCompletion i s =
        Inr (s\<lparr>tasks := (tasks s)[nat i := Obj (t\<lparr>item_completed := Some (\<not> b)\<rparr>)]\<rparr>)
    \<and> toggleTaskCompletion i
        (s\<lparr>tasks := (tasks s)[nat i := Obj (t\<lparr>item_completed := Some (\<not> b)\<rparr>)]\<rparr>)
       = Inr s"
      using one two by simp
  qed
  show ?thesis
    using one two at others dense by blast
qed

theorem toggleTaskCompletion_involution_witness:
  "(0::int) \<le> 1 \<and> 1 < int (length (tasks typing)) \<and> tasks typing ! nat 1 = Obj report
   \<and> item_completed report = Some True \<and> Hole \<notin> set (tasks typing)
   \<and> toggleTaskCompletion 1 typing =
       Inr (typing\<lparr>tasks := [Obj milk, Obj (report\<lparr>item_completed := Some False\<rparr>), Obj call]\<rparr>)
   \<and> toggleTaskCompletion 1
       (typing\<lparr>tasks := [Obj milk, Obj (report\<lparr>item_completed := Some False\<rparr>), Obj call]\<rparr>)
       = Inr typing"
proof -
  have h1: "(0::int) \<le> 1"
    by simp
  have h2: "1 < int (length (tasks typing))"
    by (simp add: typing_def)
  have h3: "tasks typing ! nat 1 = Obj report"
    by (simp add: typing_def)
  have h4: "item_completed report = Some True"
    by (simp add: report_def)
  show ?thesis
    using h2 h3 h4 toggleTaskCompletion_involution [OF h1 h2 h3 h4]
    by (simp add: typing_def spread_def)
qed

subsection \<open>Decimal strings\<close>

lemma unat_digit: "d < 10 \<Longrightarrow> unat (48 + word_of_nat d :: 16 word) = 48 + d"
proof -
  assume "d < 10"
  then have "(48 + d) mod 2 ^ 16 = 48 + d"
    by simp
  moreover have "unat (word_of_nat (48 + d) :: 16 word) = (48 + d) mod 2 ^ 16"
    by (simp only: unat_of_nat len_bit0 len_num1 mult_1_right) simp
  ultimately show ?thesis
    by simp
qed

lemma undec_snoc: "undec (ds @ [d]) = 10 * undec ds + (unat d - 48)"
  by (simp add: undec_def)

lemma undec_dec: "undec (dec n) = n"
proof (induction n rule: dec.induct)
  case (1 n)
  show ?case
  proof (cases "n < 10")
    case True
    then have "dec n = [word_of_nat (48 + n)]" by (simp add: dec.simps)
    then show ?thesis using True by (simp add: undec_def unat_digit)
  next
    case False
    then have "dec n = dec (n div 10) @ [word_of_nat (48 + n mod 10)]"
      by (subst dec.simps) simp
    then show ?thesis
      using False "1.IH" by (simp add: undec_snoc unat_digit)
  qed
qed

lemma dec_digits: "c \<in> set (dec n) \<Longrightarrow> 48 \<le> unat c"
proof (induction n rule: dec.induct)
  case (1 n)
  show ?case
  proof (cases "n < 10")
    case True
    then have "dec n = [word_of_nat (48 + n)]" by (simp add: dec.simps)
    then show ?thesis using True "1.prems" by (auto simp: unat_digit)
  next
    case False
    then have "dec n = dec (n div 10) @ [word_of_nat (48 + n mod 10)]"
      by (subst dec.simps) simp
    then show ?thesis
      using False "1.IH" "1.prems" by (auto simp: unat_digit)
  qed
qed

lemma minus_not_in_dec: "dec n \<noteq> 0x2D # ds"
proof
  assume "dec n = 0x2D # ds"
  then have "(0x2D :: 16 word) \<in> set (dec n)" by simp
  then have "48 \<le> unat (0x2D :: 16 word)" by (rule dec_digits)
  then show False by simp
qed

lemma toString_inj: "toString m = toString n \<Longrightarrow> m = n"
proof -
  assume eq: "toString m = toString n"
  consider "m < 0" "n < 0" | "m < 0" "0 \<le> n" | "0 \<le> m" "n < 0" | "0 \<le> m" "0 \<le> n"
    by linarith
  then show "m = n"
  proof cases
    case 1
    then have "undec (dec (nat (- m))) = undec (dec (nat (- n)))"
      using eq by (simp add: toString_def)
    then show ?thesis using 1 by (simp add: undec_dec)
  next
    case 2
    then have "dec (nat n) = 0x2D # dec (nat (- m))"
      using eq by (simp add: toString_def)
    then show ?thesis
      using minus_not_in_dec by blast
  next
    case 3
    then have "dec (nat m) = 0x2D # dec (nat (- n))"
      using eq by (simp add: toString_def)
    then show ?thesis
      using minus_not_in_dec by blast
  next
    case 4
    then have "undec (dec (nat m)) = undec (dec (nat n))"
      using eq by (simp add: toString_def)
    then show ?thesis using 4 by (simp add: undec_dec)
  qed
qed

subsection \<open>Ids along a run\<close>

lemma ids_Nil [simp]: "ids [] = []"
  by (simp add: ids_def)

lemma ids_append [simp]: "ids (xs @ ys) = ids xs @ ids ys"
  by (simp add: ids_def List.map_filter_def)

lemma ids_replicate_Hole [simp]: "ids (replicate n Hole) = []"
  by (induction n) (simp_all add: ids_def)

lemma slot_id_spread: "map slot_id (spread xs) = map slot_id xs"
  by (induction xs) (auto simp: spread_def split: slot.splits)

lemma ids_Cons [simp]:
  "ids (x # xs) = (case slot_id x of None \<Rightarrow> ids xs | Some i \<Rightarrow> i # ids xs)"
  by (simp add: ids_def split: option.splits)

lemma ids_via_map: "ids xs = map the (filter (\<lambda>v. v \<noteq> None) (map slot_id xs))"
  by (simp add: ids_def List.map_filter_def filter_map comp_def)

lemma ids_map_slot_id: "map slot_id xs = map slot_id ys \<Longrightarrow> ids xs = ids ys"
  by (simp add: ids_via_map)

lemma ids_spread [simp]: "ids (spread xs) = ids xs"
  by (rule ids_map_slot_id) (rule slot_id_spread)

lemma ids_update:
  assumes "slot_id v = slot_id (xs ! k)"
  shows "ids (xs[k := v]) = ids xs"
proof (cases "k < length xs")
  case True
  then have "(map slot_id xs)[k := slot_id v] = map slot_id xs"
    using assms by (simp add: list_update_same_conv)
  then show ?thesis
    by (intro ids_map_slot_id) (simp add: map_update)
next
  case False
  then have "xs[k := v] = xs"
    by (intro list_update_beyond) simp
  then show ?thesis by simp
qed

lemma ids_subseq: "subseq ys xs \<Longrightarrow> subseq (ids ys) (ids xs)"
  by (simp add: ids_def List.map_filter_def subseq_map)

lemma js_filter_subseq: "subseq (js_filter p xs) xs"
proof -
  have "subseq (map snd (filter (\<lambda>(i, x). x \<noteq> Hole \<and> p x i) (enumerate 0 xs)))
               (map snd (enumerate 0 xs))"
    by (intro subseq_map subseq_filter_left)
  then show ?thesis by (simp add: js_filter_def)
qed

lemma subseq_distinct: "subseq xs ys \<Longrightarrow> distinct ys \<Longrightarrow> distinct xs"
  by (induction rule: list_emb.induct) (auto elim: list_emb_set)

lemma slot_id_overwrite: "item_id (overwrite x t p c) = slot_id x"
  by (cases x) (simp_all add: overwrite_def)

lemma slot_id_js_get: "k < length xs \<Longrightarrow> slot_id (js_get xs (int k)) = slot_id (xs ! k)"
  by (simp add: js_get_def split: slot.splits)

lemma slot_id_js_get_out: "\<not> k < length xs \<Longrightarrow> slot_id (js_get xs (int k)) = None"
  by (simp add: js_get_def)

lemma ids_js_set_overwrite:
  "ids (js_set xs k (Obj (overwrite (js_get xs (int k)) t p c))) = ids xs"
proof (cases "k < length xs")
  case True
  then show ?thesis
    by (simp add: js_set_def ids_update slot_id_overwrite slot_id_js_get)
next
  case False
  then show ?thesis
    by (simp add: js_set_def slot_id_overwrite slot_id_js_get_out)
qed

lemma ids_addTask:
  "ids (tasks (addTask now s)) =
     (if editingIndex s = None \<and> trim (task s) \<noteq> [] then ids (tasks s) @ [toString now]
      else ids (tasks s))"
proof (cases "trim (task s) = []")
  case True
  then show ?thesis by (simp add: addTask_empty)
next
  case False
  show ?thesis
  proof (cases "editingIndex s")
    case None
    then show ?thesis using False by (simp add: addTask_None)
  next
    case (Some k)
    then show ?thesis
      using False ids_js_set_overwrite [of "spread (tasks s)" k]
      by (simp add: addTask_Some)
  qed
qed

lemma ids_deleteTask: "subseq (ids (tasks (deleteTask i s))) (ids (tasks s))"
  by (simp add: deleteTask_def ids_subseq js_filter_subseq)

lemma js_get_ObjD:
  "js_get xs i = Obj ob \<Longrightarrow> 0 \<le> i \<and> nat i < length xs \<and> xs ! nat i = Obj ob"
  by (auto simp: js_get_def split: if_splits slot.splits)

lemma toggle_InrD:
  assumes "toggleTaskCompletion i s = Inr s'"
  obtains ob where "0 \<le> i" and "nat i < length (tasks s)"
    and "spread (tasks s) ! nat i = Obj ob"
    and "s' = s\<lparr>tasks := (spread (tasks s))
                 [nat i := Obj (ob\<lparr>item_completed := Some (js_not (item_completed ob))\<rparr>)]\<rparr>"
proof -
  from assms obtain ob where g: "js_get (spread (tasks s)) i = Obj ob"
    and s': "s' = s\<lparr>tasks := (spread (tasks s))
                 [nat i := Obj (ob\<lparr>item_completed := Some (js_not (item_completed ob))\<rparr>)]\<rparr>"
    by (auto simp: toggleTaskCompletion_def Let_def split: slot.splits)
  from js_get_ObjD [OF g] s' that show thesis by simp
qed

lemma slot_ids_toggle:
  assumes "toggleTaskCompletion i s = Inr s'"
  shows "map slot_id (tasks s') = map slot_id (tasks s)"
proof -
  from assms obtain ob where k: "nat i < length (tasks s)"
    and at: "spread (tasks s) ! nat i = Obj ob"
    and s': "s' = s\<lparr>tasks := (spread (tasks s))
                 [nat i := Obj (ob\<lparr>item_completed := Some (js_not (item_completed ob))\<rparr>)]\<rparr>"
    by (rule toggle_InrD)
  have "map slot_id (spread (tasks s)) ! nat i = item_id ob"
    using k at by simp
  then have "(map slot_id (spread (tasks s)))[nat i := item_id ob] = map slot_id (spread (tasks s))"
    using k by (simp add: list_update_same_conv)
  then show ?thesis
    by (simp add: s' map_update slot_id_spread)
qed

lemma editTask_tasks: "editTask i s = Inr s' \<Longrightarrow> tasks s' = tasks s"
  by (auto simp: editTask_def split: slot.splits)

lemma ids_step:
  "step e s = Inr s' \<Longrightarrow> subseq (ids (tasks s')) (ids (tasks s) @ map toString (clocks [e]))"
proof (cases e)
  case (PressAdd now)
  assume "step e s = Inr s'"
  then show ?thesis using PressAdd by (auto simp: ids_addTask)
next
  case (PressToggle i)
  assume "step e s = Inr s'"
  then show ?thesis using PressToggle by (simp add: ids_map_slot_id [OF slot_ids_toggle])
next
  case (PressEdit i)
  assume "step e s = Inr s'"
  then show ?thesis using PressEdit by (simp add: editTask_tasks)
next
  case (PressDelete i)
  assume "step e s = Inr s'"
  then show ?thesis using PressDelete by (auto simp: ids_deleteTask)
qed auto

lemma clocks_Cons: "clocks (e # es) = clocks [e] @ clocks es"
  by (cases e) simp_all

lemma ids_run:
  "run es s = Inr s' \<Longrightarrow> subseq (ids (tasks s')) (ids (tasks s) @ map toString (clocks es))"
proof (induction es arbitrary: s)
  case Nil
  then show ?case by simp
next
  case (Cons e es)
  then obtain s1 where 1: "step e s = Inr s1" and 2: "run es s1 = Inr s'"
    by (auto split: sum.splits)
  have "subseq (ids (tasks s')) (ids (tasks s1) @ map toString (clocks es))"
    using 2 by (rule Cons.IH)
  also have "subseq \<dots> ((ids (tasks s) @ map toString (clocks [e])) @ map toString (clocks es))"
    using ids_step [OF 1] by (simp only: subseq_append)
  finally show ?case
    by (simp add: clocks_Cons [of e es])
qed

lemma ids_reachable_distinct:
  assumes "run es init = Inr s" and "distinct (clocks es)"
  shows "distinct (ids (tasks s))"
proof -
  have "subseq (ids (tasks s)) (map toString (clocks es))"
    using ids_run [OF assms(1)] by (simp add: init_def)
  moreover have "distinct (map toString (clocks es))"
    using assms(2) by (simp add: distinct_map inj_on_def toString_inj)
  ultimately show ?thesis by (rule subseq_distinct)
qed

subsection \<open>Tasks stay where they are\<close>

lemma addTask_length_mono: "length (tasks s) \<le> length (tasks (addTask now s))"
proof (cases "trim (task s) = []")
  case True
  then show ?thesis by (simp add: addTask_empty)
next
  case False
  then show ?thesis
    by (cases "editingIndex s") (simp_all add: addTask_None addTask_Some js_set_def)
qed

lemma addTask_keeps_tasks:
  assumes "j < length (tasks s)" and "tasks s ! j = Obj a"
  shows "\<exists>b. tasks (addTask now s) ! j = Obj b \<and> item_id b = item_id a"
proof (cases "trim (task s) = []")
  case True
  then show ?thesis using assms by (simp add: addTask_empty)
next
  case False
  have sp: "spread (tasks s) ! j = Obj a"
    using assms by (rule spread_nth_Obj)
  show ?thesis
  proof (cases "editingIndex s")
    case None
    then show ?thesis
      using False assms sp by (simp add: addTask_None nth_append)
  next
    case (Some k)
    show ?thesis
    proof (cases "k = j")
      case True
      then have "js_get (spread (tasks s)) (int k) = Obj a"
        using assms by (simp add: js_get_spread_Obj)
      then show ?thesis
        using True False Some assms by (simp add: addTask_Some js_set_def overwrite_def)
    next
      case False
      then show ?thesis
        using \<open>trim (task s) \<noteq> []\<close> Some assms sp
        by (simp add: addTask_Some js_set_def nth_append)
    qed
  qed
qed

lemma toggle_keeps_tasks:
  assumes "toggleTaskCompletion i s = Inr s'" and "j < length (tasks s)" and "tasks s ! j = Obj a"
  shows "\<exists>b. tasks s' ! j = Obj b \<and> item_id b = item_id a"
proof -
  from assms(1) obtain ob where k: "nat i < length (tasks s)"
    and at: "spread (tasks s) ! nat i = Obj ob"
    and s': "s' = s\<lparr>tasks := (spread (tasks s))
                 [nat i := Obj (ob\<lparr>item_completed := Some (js_not (item_completed ob))\<rparr>)]\<rparr>"
    by (rule toggle_InrD)
  have sp: "spread (tasks s) ! j = Obj a"
    using assms(2,3) by (rule spread_nth_Obj)
  show ?thesis
  proof (cases "nat i = j")
    case True
    then show ?thesis using at sp k by (simp add: s')
  next
    case False
    then show ?thesis using sp by (simp add: s')
  qed
qed

lemma toggle_length: "toggleTaskCompletion i s = Inr s' \<Longrightarrow> length (tasks s') = length (tasks s)"
  by (erule toggle_InrD) simp

lemma deleteTask_subseq: "subseq (tasks (deleteTask i s)) (tasks s)"
  by (simp add: deleteTask_def js_filter_subseq)

lemma step_order:
  assumes "step e s = Inr s'"
  shows "subseq (tasks s') (tasks s)
       \<or> (length (tasks s) \<le> length (tasks s') \<and>
          (\<forall>j<length (tasks s). \<forall>a. tasks s ! j = Obj a \<longrightarrow>
             (\<exists>b. tasks s' ! j = Obj b \<and> item_id b = item_id a)))"
proof (cases e)
  case (PressAdd now)
  then have "s' = addTask now s" using assms by simp
  then show ?thesis
    using addTask_length_mono [of s now] addTask_keeps_tasks [of _ s _ now] by blast
next
  case (PressToggle i)
  then have "toggleTaskCompletion i s = Inr s'" using assms by simp
  then show ?thesis
    using toggle_length [of i s s'] toggle_keeps_tasks [of i s s'] by auto
next
  case (PressEdit i)
  then show ?thesis using assms by (simp add: editTask_tasks)
next
  case (PressDelete i)
  then show ?thesis using assms deleteTask_subseq [of i s] by auto
qed (use assms in auto)

subsection \<open>Every task has an id\<close>

text \<open>
  As long as no update is stale, every position of the array holds an object with an id:
  an in-range update carries the id over, an addition brings its own.
\<close>

lemma all_have_id_iff: "list_all has_id xs \<longleftrightarrow> None \<notin> set (map slot_id xs)"
  by (induction xs) (auto simp: has_id_def)

lemma slot_ids_Some_ids: "list_all has_id xs \<Longrightarrow> map slot_id xs = map Some (ids xs)"
  by (induction xs) (auto simp: has_id_def)

lemma distinct_slot_ids:
  "list_all has_id xs \<Longrightarrow> distinct (ids xs) \<Longrightarrow> distinct (map slot_id xs)"
  by (simp add: slot_ids_Some_ids distinct_map)

lemma all_have_id_no_hole: "list_all has_id xs \<Longrightarrow> Hole \<notin> set xs"
  by (induction xs) (auto simp: has_id_def)

lemma slot_ids_js_set_in_range:
  assumes "k < length xs"
  shows "map slot_id (js_set xs k (Obj (overwrite (js_get xs (int k)) t p c))) = map slot_id xs"
proof -
  have "(map slot_id xs)[k := slot_id (xs ! k)] = map slot_id xs"
    using assms by (simp add: list_update_same_conv)
  then show ?thesis
    using assms by (simp add: js_set_def map_update slot_id_overwrite slot_id_js_get)
qed

lemma all_have_id_addTask:
  assumes "list_all has_id (tasks s)" and "\<not> stale_update s"
  shows "list_all has_id (tasks (addTask now s))"
proof (cases "trim (task s) = []")
  case True
  then show ?thesis using assms(1) by (simp add: addTask_empty)
next
  case False
  have sp: "spread (tasks s) = tasks s"
    using assms(1) by (intro spread_dense all_have_id_no_hole)
  show ?thesis
  proof (cases "editingIndex s")
    case None
    then show ?thesis
      using False assms(1) by (simp add: addTask_None sp has_id_def)
  next
    case (Some k)
    then have "k < length (tasks s)"
      using False assms(2) by (simp add: stale_update_def truthy_str_def)
    then have "map slot_id (tasks (addTask now s)) = map slot_id (tasks s)"
      using False Some slot_ids_js_set_in_range [of k "tasks s"] by (simp add: addTask_Some sp)
    then show ?thesis
      using assms(1) by (simp add: all_have_id_iff)
  qed
qed

lemma all_have_id_subseq: "subseq ys xs \<Longrightarrow> list_all has_id xs \<Longrightarrow> list_all has_id ys"
  by (induction rule: list_emb.induct) auto

lemma all_have_id_step:
  assumes "step e s = Inr s'" and "list_all has_id (tasks s)"
    and "case e of PressAdd now \<Rightarrow> \<not> stale_update s | _ \<Rightarrow> True"
  shows "list_all has_id (tasks s')"
proof (cases e)
  case (PressAdd now)
  then show ?thesis using assms by (auto simp: all_have_id_addTask)
next
  case (PressToggle i)
  then have "map slot_id (tasks s') = map slot_id (tasks s)"
    using assms(1) by (simp add: slot_ids_toggle)
  then show ?thesis using assms(2) by (simp add: all_have_id_iff)
next
  case (PressEdit i)
  then show ?thesis using assms by (simp add: editTask_tasks)
next
  case (PressDelete i)
  then show ?thesis
    using assms all_have_id_subseq [OF deleteTask_subseq, of s i] by auto
qed (use assms in auto)

lemma all_have_id_run:
  "run es s = Inr s' \<Longrightarrow> in_range_updates es s \<Longrightarrow> list_all has_id (tasks s) \<Longrightarrow>
   list_all has_id (tasks s')"
proof (induction es arbitrary: s)
  case Nil
  then show ?case by simp
next
  case (Cons e es)
  from Cons.prems(1) obtain s1 where 1: "step e s = Inr s1" and 2: "run es s1 = Inr s'"
    by (auto split: sum.splits)
  have "list_all has_id (tasks s1)"
    using 1 Cons.prems(2,3) by (intro all_have_id_step [of e s s1]) simp_all
  moreover have "in_range_updates es s1"
    using 1 Cons.prems(2) by simp
  ultimately show ?case
    using 2 by (intro Cons.IH)
qed

lemma ids_reachable_unique:
  assumes "run es init = Inr s" and "distinct (clocks es)" and "in_range_updates es init"
  shows "list_all has_id (tasks s) \<and> distinct (map slot_id (tasks s))"
proof -
  have all: "list_all has_id (tasks s)"
    using assms(1,3) by (rule all_have_id_run) (simp add: init_def)
  moreover have "distinct (ids (tasks s))"
    using assms(1,2) by (rule ids_reachable_distinct)
  ultimately show ?thesis
    by (simp add: distinct_slot_ids)
qed

subsection \<open>Ids and order\<close>

lemmas run_defs = init_def addTask_def truthy_str_def trim_def is_ws_def js_str_def
  spread_def toString_def dec.simps editTask_def js_get_def js_set_def overwrite_def
  deleteTask_def js_filter_def stale_update_def

text \<open>
  C6, as the code has it. The id of a task never changes: \<open>addTask\<close> (in editing mode as
  in any other) and a successful \<open>toggleTaskCompletion\<close> leave every task at its index
  with its id, and what \<open>deleteTask\<close> leaves is a subsequence of the old array, its elements
  untouched. In every list reached from the initial state by a run in which the clock
  readings at the presses of the add/update button are pairwise different and no update
  is stale, every position holds a task that has an id, and no two of them have the
  same id. (The reading of a press that updates, or that is ignored for a blank text, is
  not used by the code; any value may stand for it.)
\<close>

theorem ids_immutable_and_unique_by_clock:
  "(run es init = Inr s \<longrightarrow> distinct (clocks es) \<longrightarrow> in_range_updates es init \<longrightarrow>
      list_all has_id (tasks s) \<and> distinct (map slot_id (tasks s)))
   \<and> (\<forall>j<length (tasks u). \<forall>a. tasks u ! j = Obj a \<longrightarrow>
         (\<exists>b. tasks (addTask now u) ! j = Obj b \<and> item_id b = item_id a))
   \<and> (toggleTaskCompletion i u = Inr v \<longrightarrow>
         (\<forall>j<length (tasks u). \<forall>a. tasks u ! j = Obj a \<longrightarrow>
            (\<exists>b. tasks v ! j = Obj b \<and> item_id b = item_id a)))
   \<and> subseq (tasks (deleteTask i u)) (tasks u)"
proof (intro conjI impI allI)
  assume "run es init = Inr s" and "distinct (clocks es)" and "in_range_updates es init"
  then have "list_all has_id (tasks s) \<and> distinct (map slot_id (tasks s))"
    by (rule ids_reachable_unique)
  then show "list_all has_id (tasks s)" and "distinct (map slot_id (tasks s))"
    by simp_all
next
  fix j a
  assume "j < length (tasks u)" and "tasks u ! j = Obj a"
  then show "\<exists>b. tasks (addTask now u) ! j = Obj b \<and> item_id b = item_id a"
    by (rule addTask_keeps_tasks)
next
  fix j a
  assume "toggleTaskCompletion i u = Inr v" and "j < length (tasks u)"
    and "tasks u ! j = Obj a"
  then show "\<exists>b. tasks v ! j = Obj b \<and> item_id b = item_id a"
    by (rule toggle_keeps_tasks)
next
  show "subseq (tasks (deleteTask i u)) (tasks u)"
    by (rule deleteTask_subseq)
qed

theorem ids_immutable_and_unique_by_clock_witness:
  "run renaming init = Inr renamed \<and> distinct (clocks renaming)
   \<and> in_range_updates renaming init
   \<and> list_all has_id (tasks renamed) \<and> distinct (map slot_id (tasks renamed))
   \<and> map slot_id (tasks renamed) = [Some (js_str ''5''), Some (js_str ''6'')]
   \<and> (1::nat) < length (tasks editing) \<and> tasks editing ! 1 = Obj report
   \<and> slot_id (tasks (addTask 7 editing) ! 1) = item_id report
   \<and> toggleTaskCompletion 1 editing =
        Inr (editing\<lparr>tasks := [Obj milk, Obj (report\<lparr>item_completed := Some False\<rparr>), Obj call]\<rparr>)
   \<and> subseq (tasks (deleteTask 1 editing)) (tasks editing)"
proof -
  let ?t = "editing\<lparr>tasks := [Obj milk, Obj (report\<lparr>item_completed := Some False\<rparr>), Obj call]\<rparr>"
  have h1: "run renaming init = Inr renamed"
    by (simp add: renaming_def later_clock_def renamed_def run_defs)
  have h2: "distinct (clocks renaming)"
    by (simp add: renaming_def later_clock_def)
  have h3: "in_range_updates renaming init"
    by (simp add: renaming_def later_clock_def run_defs)
  have h4: "(1::nat) < length (tasks editing)"
    by (simp add: ex_defs)
  have h5: "tasks editing ! 1 = Obj report"
    by (simp add: editing_def typing_def)
  have h6: "toggleTaskCompletion 1 editing = Inr ?t"
    by (simp add: editing_def typing_def toggleTaskCompletion_def js_get_def spread_def
        report_def js_not_def)
  note inst = ids_immutable_and_unique_by_clock
    [where es = renaming and s = renamed and u = editing and now = 7 and i = 1 and v = ?t]
  have "list_all has_id (tasks renamed) \<and> distinct (map slot_id (tasks renamed))"
    using inst h1 h2 h3 by blast
  moreover have "\<exists>b. tasks (addTask 7 editing) ! 1 = Obj b \<and> item_id b = item_id report"
    using inst h4 h5 by blast
  then have "slot_id (tasks (addTask 7 editing) ! 1) = item_id report"
    by auto
  moreover have "subseq (tasks (deleteTask 1 editing)) (tasks editing)"
    using inst by blast
  moreover have "map slot_id (tasks renamed) = [Some (js_str ''5''), Some (js_str ''6'')]"
    by (simp add: renamed_def)
  ultimately show ?thesis
    using h1 h2 h3 h4 h5 h6 by simp
qed

text \<open>
  C6 as stated fails: typing a task and pressing the add button twice while
  \<^verbatim>\<open>Date.now()\<close> returns 5 both times gives a list of two tasks that both have the id
  \<^verbatim>\<open>"5"\<close>.
\<close>

theorem same_clock_same_id_counterexample:
  "run same_clock init = Inr twins \<and> \<not> distinct (ids (tasks twins))"
  by (simp add: same_clock_def twins_def run_defs)

text \<open>
  C7. The list is in insertion order: in every state reached from the initial one, the
  ids in the list are a subsequence of the ids handed out, in the order of the presses
  that handed them out. And no single event reorders: after \<open>deleteTask\<close> the array is a
  subsequence of the old one, and after every other event the array is at least as long
  and every task is at the index it had, with its id, so that whatever is new lies
  behind the old tasks.
\<close>

theorem order_is_insertion_order:
  "(run es init = Inr s \<longrightarrow> subseq (ids (tasks s)) (map toString (clocks es)))
   \<and> (step e u = Inr v \<longrightarrow>
        subseq (tasks v) (tasks u)
        \<or> (length (tasks u) \<le> length (tasks v) \<and>
           (\<forall>j<length (tasks u). \<forall>a. tasks u ! j = Obj a \<longrightarrow>
              (\<exists>b. tasks v ! j = Obj b \<and> item_id b = item_id a))))"
proof (intro conjI impI)
  assume "run es init = Inr s"
  then show "subseq (ids (tasks s)) (map toString (clocks es))"
    using ids_run [of es init s] by (simp add: init_def)
next
  assume "step e u = Inr v"
  then show "subseq (tasks v) (tasks u)
        \<or> (length (tasks u) \<le> length (tasks v) \<and>
           (\<forall>j<length (tasks u). \<forall>a. tasks u ! j = Obj a \<longrightarrow>
              (\<exists>b. tasks v ! j = Obj b \<and> item_id b = item_id a)))"
    by (rule step_order)
qed

theorem order_is_insertion_order_witness:
  "run later_clock init = Inr pair
   \<and> subseq (ids (tasks pair)) (map toString (clocks later_clock))
   \<and> ids (tasks pair) = [js_str ''5'', js_str ''6'']
   \<and> step (PressDelete 1) typing = Inr (deleteTask 1 typing)
   \<and> subseq (tasks (deleteTask 1 typing)) (tasks typing)
   \<and> step (PressAdd 7) typing = Inr (addTask 7 typing)
   \<and> length (tasks typing) \<le> length (tasks (addTask 7 typing))
   \<and> slot_id (tasks (addTask 7 typing) ! 1) = slot_id (tasks typing ! 1)"
proof -
  have h1: "run later_clock init = Inr pair"
    by (simp add: later_clock_def pair_def run_defs)
  have h2: "step (PressDelete 1) typing = Inr (deleteTask 1 typing)"
    by simp
  have h3: "step (PressAdd 7) typing = Inr (addTask 7 typing)"
    by simp
  have at: "(1::nat) < length (tasks typing) \<and> tasks typing ! 1 = Obj report"
    by (simp add: typing_def)
  have shorter: "\<not> length (tasks typing) \<le> length (tasks (deleteTask 1 typing))"
    by (simp add: typing_def deleteTask_def js_filter_def)
  have longer: "\<not> length (tasks (addTask 7 typing)) \<le> length (tasks typing)"
    by (simp add: ex_defs addTask_def truthy_str_def trim_def is_ws_def spread_def)
  have "subseq (ids (tasks pair)) (map toString (clocks later_clock))"
    using h1 order_is_insertion_order [where es = later_clock and s = pair] by blast
  moreover have "subseq (tasks (deleteTask 1 typing)) (tasks typing)"
    using h2 shorter
      order_is_insertion_order [where e = "PressDelete 1" and u = typing and v = "deleteTask 1 typing"]
    by blast
  moreover have "length (tasks typing) \<le> length (tasks (addTask 7 typing)) \<and>
      (\<forall>j<length (tasks typing). \<forall>a. tasks typing ! j = Obj a \<longrightarrow>
         (\<exists>b. tasks (addTask 7 typing) ! j = Obj b \<and> item_id b = item_id a))"
    using h3 longer list_emb_length [of "(=)" "tasks (addTask 7 typing)" "tasks typing"]
      order_is_insertion_order [where e = "PressAdd 7" and u = typing and v = "addTask 7 typing"]
    by blast
  then have "length (tasks typing) \<le> length (tasks (addTask 7 typing)) \<and>
      (\<exists>b. tasks (addTask 7 typing) ! 1 = Obj b \<and> item_id b = item_id report)"
    using at by blast
  then have "length (tasks typing) \<le> length (tasks (addTask 7 typing)) \<and>
      slot_id (tasks (addTask 7 typing) ! 1) = slot_id (tasks typing ! 1)"
    using at by auto
  moreover have "ids (tasks pair) = [js_str ''5'', js_str ''6'']"
    by (simp add: pair_def)
  ultimately show ?thesis
    using h1 h2 h3 by simp
qed

subsection \<open>A stale editing index\<close>

text \<open>
  Where the hypotheses on the array come from. \<open>deleteTask\<close> leaves \<open>editingIndex\<close> alone, so
  the stored index can point beyond the end of a shortened array. The update then
  extends the array, leaving a hole and an object without \<open>id\<close> and \<open>completed\<close>, and a
  later \<open>deleteTask\<close> drops the hole along with whatever index it was given.
\<close>

lemma addTask_stale_index:
  "tasks (addTask 7 (typing\<lparr>editingIndex := Some 4\<rparr>)) =
     [Obj milk, Obj report, Obj call, Hole,
      Obj \<lparr>item_task = js_str ''gym'', item_priority = js_str ''Low'',
            item_category = js_str ''Personal'', item_completed = None, item_id = None\<rparr>]"
  by (simp add: ex_defs addTask_def truthy_str_def trim_def is_ws_def spread_def js_set_def
      js_get_def overwrite_def)

lemma deleteTask_drops_holes:
  "tasks (deleteTask 9 (typing\<lparr>tasks := [Obj milk, Hole, Obj call]\<rparr>)) = [Obj milk, Obj call]"
  by (simp add: deleteTask_def js_filter_def)

text \<open>
  Two stale updates in a row, with pairwise different clock readings: the list ends with
  two objects, neither of which has an id.
\<close>

lemma stale_run_loses_ids:
  "distinct (clocks stale_run) \<and> \<not> in_range_updates stale_run init
   \<and> run stale_run init =
       Inr (init\<lparr>tasks :=
         [Obj \<lparr>item_task = js_str ''b'', item_priority = js_str ''Medium'',
               item_category = js_str ''Work'', item_completed = None, item_id = None\<rparr>,
          Obj \<lparr>item_task = js_str ''b'', item_priority = js_str ''Medium'',
               item_category = js_str ''Work'', item_completed = None, item_id = None\<rparr>]\<rparr>)"
  by (simp add: stale_run_def run_defs)

end
